theory Spec2Isabelle
  imports Main "HOL-Library.Word"
begin

unbundle bit_operations_syntax

section \<open>pmt2bmp: data model\<close>

text \<open>
  A shallow embedding of \<^verbatim>\<open>pmt2bmp.c\<close>. A C byte array is a list of 8-bit words, a
  pointer into an array is an offset (\<open>nat\<close>) into that list, and the C \<open>int\<close> parameters
  that carry sizes are \<open>int\<close> (all sizes of this program are far below \<open>2^31\<close>, so no
  wrap-around is involved). Every \<^verbatim>\<open>return -1\<close> and \<^verbatim>\<open>return NULL\<close> of the source is an
  \<open>Inl\<close> result; the error names are those of the specification, one per diagnostic
  message of the source.
\<close>

type_synonym u8 = "8 word"

definition PMT_DECODED_ROW_PLANE_BYTES :: nat where
  "PMT_DECODED_ROW_PLANE_BYTES = 105"

definition PMT_PIXELS_PER_ROW :: nat where
  "PMT_PIXELS_PER_ROW = PMT_DECODED_ROW_PLANE_BYTES * 8"

definition PMT_PLANES :: nat where
  "PMT_PLANES = 4"

definition PMT_DECODED_ROW_BYTES :: nat where
  "PMT_DECODED_ROW_BYTES = PMT_DECODED_ROW_PLANE_BYTES * PMT_PLANES"

definition BMP_ROW_BYTES :: nat where
  "BMP_ROW_BYTES = PMT_DECODED_ROW_BYTES"

definition PMT_ROWS_PER_GROUP :: nat where
  "PMT_ROWS_PER_GROUP = 148"

definition PMT_DECODED_GROUP_BYTES :: nat where
  "PMT_DECODED_GROUP_BYTES = PMT_DECODED_ROW_BYTES * PMT_ROWS_PER_GROUP"

definition BMP_GROUP_BYTES :: nat where
  "BMP_GROUP_BYTES = BMP_ROW_BYTES * PMT_ROWS_PER_GROUP"



text \<open>
  \<open>OutOfBounds\<close> is not a return value of the source: it marks an access outside the
  array object a pointer points into, which is undefined behaviour in C. It is kept
  apart from the checked errors so that no theorem silently relies on such an access.
\<close>

datatype error =
    TruncatedInput
  | BufferTooSmall
  | InputOverrun
  | OutputOverrun
  | SizeMismatch
  | OpenFailure
  | OutOfBounds

text \<open>
  \<^verbatim>\<open>memset(dst, v, n)\<close> and \<^verbatim>\<open>memcpy(dst, src, n)\<close> both overwrite the \<open>n\<close> bytes of the
  destination that start at offset \<open>dst\<close>; \<open>write_at dst ys buf\<close> is the buffer after
  the bytes \<open>ys\<close> have been stored there.
\<close>

definition write_at :: "nat \<Rightarrow> u8 list \<Rightarrow> u8 list \<Rightarrow> u8 list" where
  "write_at off ys buf = take off buf @ ys @ drop (off + length ys) buf"

section \<open>RLE decoder\<close>

text \<open>
  The cursors \<^verbatim>\<open>src\<close> and \<^verbatim>\<open>dst\<close> of \<^verbatim>\<open>pmt_decode_group\<close> as offsets from
  \<^verbatim>\<open>raw_group_buf\<close> and \<^verbatim>\<open>decoded_group_buf\<close>, together with the contents of the
  destination array.
\<close>

record decode_state =
  src :: nat
  dst :: nat
  decoded_group_buf :: "u8 list"

text \<open>
  One iteration of the \<^verbatim>\<open>while\<close> loop (source lines 150 to 183). \<open>raw_group_buf\<close> is the
  whole array the source pointer points into; \<open>raw_group_size\<close> is the declared number
  of input bytes, which may be smaller than the array.
\<close>

definition pmt_decode_step ::
  "u8 list \<Rightarrow> int \<Rightarrow> int \<Rightarrow> decode_state \<Rightarrow> (error \<times> decode_state) + decode_state" where
  "pmt_decode_step raw_group_buf raw_group_size decoded_group_buf_size st =
    (if length raw_group_buf \<le> src st then Inl (OutOfBounds, st)
     else if (raw_group_buf ! src st) AND 0x80 \<noteq> 0 then
       (let run_length = (raw_group_buf ! src st) AND 0x7f;
            st1 = st\<lparr>src := src st + 1\<rparr>
        in if int (src st1) > raw_group_size then Inl (InputOverrun, st1)
           else if int (dst st1 + unat run_length) > decoded_group_buf_size
             then Inl (OutputOverrun, st1)
           else if length raw_group_buf \<le> src st1
                   \<or> length (decoded_group_buf st1) < dst st1 + unat run_length
             then Inl (OutOfBounds, st1)
           else Inr \<lparr>src = src st1 + 1,
                     dst = dst st1 + unat run_length,
                     decoded_group_buf =
                       write_at (dst st1) (replicate (unat run_length) (raw_group_buf ! src st1))
                         (decoded_group_buf st1)\<rparr>)
     else
       (let copy_count = raw_group_buf ! src st;
            st1 = st\<lparr>src := src st + 1\<rparr>
        in if int (src st1) > raw_group_size then Inl (InputOverrun, st1)
           else if int (dst st1 + unat copy_count) > decoded_group_buf_size
             then Inl (OutputOverrun, st1)
           else if length raw_group_buf < src st1 + unat copy_count
                   \<or> length (decoded_group_buf st1) < dst st1 + unat copy_count
             then Inl (OutOfBounds, st1)
           else Inr \<lparr>src = src st1 + unat copy_count,
                     dst = dst st1 + unat copy_count,
                     decoded_group_buf =
                       write_at (dst st1) (take (unat copy_count) (drop (src st1) raw_group_buf))
                         (decoded_group_buf st1)\<rparr>))"

text \<open>The \<^verbatim>\<open>while\<close> loop of \<^verbatim>\<open>pmt_decode_group\<close> (source line 149).\<close>

function pmt_decode_loop ::
  "u8 list \<Rightarrow> int \<Rightarrow> int \<Rightarrow> decode_state \<Rightarrow> (error \<times> decode_state) + decode_state" where
  "pmt_decode_loop raw_group_buf raw_group_size decoded_group_buf_size st =
    (if int (src st) < raw_group_size then
       (case pmt_decode_step raw_group_buf raw_group_size decoded_group_buf_size st of
          Inl e \<Rightarrow> Inl e
        | Inr st' \<Rightarrow> pmt_decode_loop raw_group_buf raw_group_size decoded_group_buf_size st')
     else Inr st)"
  by pat_completeness auto
termination
  by (relation "measure (\<lambda>(raw, n, cap, st). nat (n - int (src st)))")
     (auto simp: pmt_decode_step_def Let_def split: if_splits)

declare pmt_decode_loop.simps [simp del]

text \<open>
  \<^verbatim>\<open>pmt_decode_group\<close>: the loop from both cursors at offset 0, then the size check of
  source lines 186 to 192. The result is the returned \<open>int\<close> (or the error) and the
  contents of \<^verbatim>\<open>decoded_group_buf\<close> when the call returns.
\<close>

definition pmt_decode_group ::
  "u8 list \<Rightarrow> int \<Rightarrow> u8 list \<Rightarrow> int \<Rightarrow> (error + int) \<times> u8 list" where
  "pmt_decode_group raw_group_buf raw_group_size decoded_buf decoded_group_buf_size =
    (case pmt_decode_loop raw_group_buf raw_group_size decoded_group_buf_size
            \<lparr>src = 0, dst = 0, decoded_group_buf = decoded_buf\<rparr> of
       Inl (e, st) \<Rightarrow> (Inl e, decoded_group_buf st)
     | Inr st \<Rightarrow>
         (let decoded_bytes = int (dst st)
          in if decoded_bytes \<noteq> decoded_group_buf_size
             then (Inl SizeMismatch, decoded_group_buf st)
             else (Inr decoded_bytes, decoded_group_buf st)))"

text \<open>
  The same loop with an explicit bound on the number of iterations: \<open>None\<close> when the
  bound is used up before the loop condition becomes false.
\<close>

fun pmt_decode_fuel ::
  "nat \<Rightarrow> u8 list \<Rightarrow> int \<Rightarrow> int \<Rightarrow> decode_state \<Rightarrow> ((error \<times> decode_state) + decode_state) option" where
  "pmt_decode_fuel 0 raw_group_buf raw_group_size decoded_group_buf_size st =
    (if int (src st) < raw_group_size then None else Some (Inr st))"
| "pmt_decode_fuel (Suc k) raw_group_buf raw_group_size decoded_group_buf_size st =
    (if int (src st) < raw_group_size then
       (case pmt_decode_step raw_group_buf raw_group_size decoded_group_buf_size st of
          Inl e \<Rightarrow> Some (Inl e)
        | Inr st' \<Rightarrow> pmt_decode_fuel k raw_group_buf raw_group_size decoded_group_buf_size st')
     else Some (Inr st))"

text \<open>
  The decoder as the specification words it (section 4.2), on exactly the declared
  input bytes: a control byte with the high bit set is a run of its low 7 bits copies
  of the next byte, a control byte with the high bit clear counts the bytes that
  follow to be copied; \<open>None\<close> is the specification's \<open>InputOverrun\<close>.
\<close>

fun rle_spec :: "u8 list \<Rightarrow> u8 list option" where
  "rle_spec [] = Some []"
| "rle_spec (c # rest) =
    (if bit c 7 then
       (case rest of
          [] \<Rightarrow> None
        | v # rest' \<Rightarrow> map_option ((@) (replicate (unat c mod 128) v)) (rle_spec rest'))
     else if length rest < unat c then None
     else map_option ((@) (take (unat c) rest)) (rle_spec (drop (unat c) rest)))"

text \<open>
  The number of output bytes an opcode byte asks for: the low 7 bits of a run opcode
  (source line 152), the byte itself for a literal opcode (source line 169).
\<close>

definition opcode_count :: "u8 \<Rightarrow> nat" where
  "opcode_count c = (if c AND 0x80 \<noteq> 0 then unat (c AND 0x7f) else unat c)"

section \<open>Group reader\<close>

text \<open>
  The input \<^verbatim>\<open>FILE *\<close> is read strictly forwards, so it is modelled by the bytes that
  remain after the read position. \<^verbatim>\<open>fread(buf, 1, n, fh)\<close> delivers as many of the next
  \<open>n\<close> bytes as exist and moves the position past them; \<^verbatim>\<open>fseek(fh, n, SEEK_CUR)\<close>
  moves the position \<open>n\<close> bytes on (a position past the end makes later reads
  deliver nothing).
\<close>

type_synonym stream = "u8 list"

definition fread :: "nat \<Rightarrow> stream \<Rightarrow> u8 list \<times> stream" where
  "fread n fh = (take n fh, drop n fh)"


text \<open>
  \<^verbatim>\<open>pmt_read_group\<close> (source lines 119 to 141). The two prefix bytes are stored into a
  \<^verbatim>\<open>uint16_t\<close> in file order, low byte first on a little-endian machine, so its value is
  \<open>b0 + 256 * b1 < 65536\<close>. The result is the returned \<open>int\<close> (or the error), the
  stream after the call and the contents of \<^verbatim>\<open>buf\<close> after the call; a short payload
  read has already stored the bytes it got. (The byte order is that of the machine the
  program runs on; little-endian is what the format and the specification assume.)
\<close>

definition pmt_read_group :: "stream \<Rightarrow> u8 list \<Rightarrow> int \<Rightarrow> (error + int) \<times> stream \<times> u8 list" where
  "pmt_read_group fh buf buf_size =
    (let (hdr, fh1) = fread 2 fh;
         bytes_read = length hdr
     in if bytes_read \<noteq> 2 then (Inl TruncatedInput, fh1, buf)
        else
          (let group_size = unat (hdr ! 0) + 256 * unat (hdr ! 1)
           in if int group_size > buf_size then (Inl BufferTooSmall, fh1, buf)
              else
                (let (payload, fh2) = fread group_size fh1;
                     bytes_read = length payload;
                     buf' = write_at 0 payload buf
                 in if bytes_read \<noteq> group_size then (Inl TruncatedInput, fh2, buf')
                    else (Inr (int bytes_read), fh2, buf'))))"

section \<open>Plane reassembler\<close>

text \<open>\<^verbatim>\<open>pmt_plane_pixel\<close> (source lines 196 to 199).\<close>

definition pmt_plane_pixel :: "u8 \<Rightarrow> u8 \<Rightarrow> u8" where
  "pmt_plane_pixel pmt_byte pmt_pixel_idx =
    (let bit_mask = push_bit (unat pmt_pixel_idx) 1
     in drop_bit (unat pmt_pixel_idx) (pmt_byte AND bit_mask))"

text \<open>
  \<^verbatim>\<open>bmp_pixel\<close> (source lines 202 to 215). \<open>pmt_row\<close> is the \<^verbatim>\<open>pmt_row_t\<close> object the
  pointer refers to, 4 planes of 105 bytes laid out one after the other, so
  \<^verbatim>\<open>(*pmt_row)[p][b]\<close> is byte \<open>p * 105 + b\<close> of it. The pixel index is never negative
  in this program (the only caller counts from 0 to 839), hence a \<open>nat\<close>. The
  \<^verbatim>\<open>for\<close> loop over the planes is a \<open>fold\<close> over \<open>[0..<PMT_PLANES]\<close>.
\<close>

definition bmp_pixel :: "u8 list \<Rightarrow> nat \<Rightarrow> u8" where
  "bmp_pixel pmt_row pmt_row_pixel_idx =
    (let pmt_byte_idx = pmt_row_pixel_idx div 8;
         pmt_pixel_idx = (of_nat (7 - (pmt_row_pixel_idx - pmt_byte_idx * 8)) :: u8)
     in fold (\<lambda>pmt_plane result.
                result + push_bit pmt_plane
                  (pmt_plane_pixel
                     (pmt_row ! (pmt_plane * PMT_DECODED_ROW_PLANE_BYTES + pmt_byte_idx))
                     pmt_pixel_idx))
          [0..<PMT_PLANES] 0)"

text \<open>
  The body of the inner loop of \<^verbatim>\<open>convert_group_to_bmp\<close> (source lines 228 to 238) on
  the loop state: the write cursor \<^verbatim>\<open>bmp_ptr\<close> as an offset into the output array,
  the half-filled \<^verbatim>\<open>bmp_byte\<close> and the output array.
\<close>

definition convert_pixel :: "u8 list \<Rightarrow> nat \<Rightarrow> nat \<times> u8 \<times> u8 list \<Rightarrow> nat \<times> u8 \<times> u8 list" where
  "convert_pixel pmt_row pmt_pixel_idx s =
    (case s of (bmp_ptr, bmp_byte, bmp_buf) \<Rightarrow>
       (let bmp_pixel_val = bmp_pixel pmt_row pmt_pixel_idx
        in if pmt_pixel_idx mod 2 \<noteq> 0
           then (bmp_ptr + 1, 0, bmp_buf[bmp_ptr := bmp_byte + bmp_pixel_val])
           else (bmp_ptr, bmp_byte + push_bit 4 bmp_pixel_val, bmp_buf)))"

text \<open>The body of the outer loop (source lines 222 to 239): one row.\<close>

definition convert_row :: "u8 list \<Rightarrow> nat \<Rightarrow> nat \<Rightarrow> nat \<times> u8 list \<Rightarrow> nat \<times> u8 list" where
  "convert_row pmt_group bmp_group_start row s =
    (case s of (old_bmp_ptr, bmp_buf) \<Rightarrow>
       (let pmt_row = take PMT_DECODED_ROW_BYTES (drop (row * PMT_DECODED_ROW_BYTES) pmt_group);
            bmp_ptr = bmp_group_start + row * BMP_ROW_BYTES
        in case fold (convert_pixel pmt_row) [0..<PMT_PIXELS_PER_ROW] (bmp_ptr, 0, bmp_buf) of
             (bmp_ptr', bmp_byte, bmp_buf') \<Rightarrow> (bmp_ptr', bmp_buf')))"

text \<open>
  \<^verbatim>\<open>convert_group_to_bmp\<close> (source lines 218 to 242): the returned pointer, as an offset
  into the output array, and the output array. \<^verbatim>\<open>bmp_ptr\<close> is uninitialised before the
  first row and assigned at the start of every row; the offset it starts from here is
  never read.
\<close>

definition convert_group_to_bmp :: "u8 list \<Rightarrow> u8 list \<Rightarrow> nat \<Rightarrow> nat \<times> u8 list" where
  "convert_group_to_bmp pmt_group bmp_buf bmp_group_start =
    fold (convert_row pmt_group bmp_group_start) [0..<PMT_ROWS_PER_GROUP] (0, bmp_buf)"

text \<open>
  The pixel value and the packed output byte as the specification words them
  (section 4.3), on the flat decoded group: plane \<open>p\<close> of row \<open>row\<close> starts at byte
  \<open>row * 420 + p * 105\<close>.
\<close>

definition pixel_value_spec :: "u8 list \<Rightarrow> nat \<Rightarrow> nat \<Rightarrow> u8" where
  "pixel_value_spec pmt_group row j =
    (\<Sum>p\<leftarrow>[0..<4]. push_bit p
        (of_bool (bit (pmt_group ! (row * 420 + p * 105 + j div 8)) (7 - j mod 8))))"

definition packed_byte_spec :: "u8 list \<Rightarrow> nat \<Rightarrow> nat \<Rightarrow> u8" where
  "packed_byte_spec pmt_group row k =
    push_bit 4 (pixel_value_spec pmt_group row (2 * k)) OR pixel_value_spec pmt_group row (2 * k + 1)"

definition reassemble_spec :: "u8 list \<Rightarrow> u8 list" where
  "reassemble_spec pmt_group =
    concat (map (\<lambda>row. map (packed_byte_spec pmt_group row) [0..<420]) [0..<148])"

section \<open>Color table converter\<close>

text \<open>
  \<^verbatim>\<open>pmt_to_bmp_color_table\<close> (source lines 245 to 255). Both tables are C arrays of
  arrays, stored row by row: entry \<open>i\<close>, channel \<open>c\<close> of the 16 by 3 input table is byte
  \<open>i * 3 + c\<close>, and of the 16 by 4 output table byte \<open>i * 4 + c\<close>.
\<close>

definition pmt_to_bmp_color_entry :: "u8 list \<Rightarrow> nat \<Rightarrow> u8 list \<Rightarrow> u8 list" where
  "pmt_to_bmp_color_entry pmt_color_table i bmp_color_table =
    (fold (\<lambda>c t. t[i * 4 + c := push_bit 2 (pmt_color_table ! (i * 3 + (2 - c)))])
       [0..<3] bmp_color_table)[i * 4 + 3 := 0]"

definition pmt_to_bmp_color_table :: "u8 list \<Rightarrow> u8 list \<Rightarrow> u8 list" where
  "pmt_to_bmp_color_table pmt_color_table bmp_color_table =
    fold (pmt_to_bmp_color_entry pmt_color_table) [0..<16] bmp_color_table"

section \<open>Pipeline\<close>










section \<open>Properties of the RLE decoder\<close>

subsection \<open>Buffers and opcode bytes\<close>

lemma length_write_at:
  "off + length ys \<le> length buf \<Longrightarrow> length (write_at off ys buf) = length buf"
  by (simp add: write_at_def)

lemma write_at_Nil: "write_at off [] buf = buf"
  by (simp add: write_at_def)

lemma write_at_write_at:
  assumes "off + length ys \<le> length buf"
  shows "write_at (off + length ys) zs (write_at off ys buf) = write_at off (ys @ zs) buf"
proof -
  have t: "take (off + length ys) (write_at off ys buf) = take off buf @ ys"
    using assms by (simp add: write_at_def)
  have d: "drop (off + length ys + length zs) (write_at off ys buf)
           = drop (off + length (ys @ zs)) buf"
  proof -
    have "drop (off + length ys + length zs) (write_at off ys buf)
          = drop (length zs + (off + length ys)) buf"
      using assms by (simp add: write_at_def)
    moreover have "length zs + (off + length ys) = off + length (ys @ zs)"
      by simp
    ultimately show ?thesis by (simp only:)
  qed
  have "write_at (off + length ys) zs (write_at off ys buf)
        = take (off + length ys) (write_at off ys buf) @ zs
          @ drop (off + length ys + length zs) (write_at off ys buf)"
    by (simp only: write_at_def)
  also have "\<dots> = (take off buf @ ys) @ zs @ drop (off + length (ys @ zs)) buf"
    by (simp only: t d)
  also have "\<dots> = write_at off (ys @ zs) buf"
    by (simp only: write_at_def append_assoc)
  finally show ?thesis .
qed

lemma high_bit_test: "(c AND 0x80 \<noteq> 0) = bit (c :: u8) 7"
proof -
  have "(0x80 :: u8) = 2 ^ 7" by simp
  then show ?thesis by (simp only: and_exp_eq_0_iff_not_bit) simp
qed

lemma low7: "unat ((c :: u8) AND 0x7f) = unat c mod 128"
proof -
  have a: "c AND 0x7f = take_bit 7 c"
    by (rule bit_word_eqI) (auto simp: bit_simps bit_numeral_word_iff numeral_eq_Suc less_Suc_eq)
  have b: "unat (take_bit 7 c) = take_bit 7 (unat c)"
    by (simp only: unsigned_take_bit_eq)
  have d: "take_bit 7 (unat c) = unat c mod 128"
    by (simp only: take_bit_eq_mod) simp
  show ?thesis
    by (simp only: a b d)
qed

lemma low7_clear:
  assumes "\<not> bit (c :: u8) 7"
  shows "unat c < 128"
proof -
  have "c AND 0x7f = c"
    using assms
    by (intro bit_word_eqI) (auto simp: bit_simps bit_numeral_word_iff numeral_eq_Suc less_Suc_eq)
  then have "unat c = unat c mod 128"
    using low7 [of c] by (simp only:)
  moreover have "unat c mod 128 < 128" by simp
  ultimately show ?thesis by (simp only:)
qed

lemma replicate_two: "replicate 2 x = [x, x]"
  by (simp add: numeral_2_eq_2)


subsection \<open>One iteration\<close>

lemma step_run:
  assumes "src st < length raw" and "bit (raw ! src st) 7"
  shows "pmt_decode_step raw rs cap st =
    (if int (src st) + 1 > rs then Inl (InputOverrun, st\<lparr>src := src st + 1\<rparr>)
     else if int (dst st + unat (raw ! src st) mod 128) > cap
       then Inl (OutputOverrun, st\<lparr>src := src st + 1\<rparr>)
     else if length raw \<le> src st + 1
             \<or> length (decoded_group_buf st) < dst st + unat (raw ! src st) mod 128
       then Inl (OutOfBounds, st\<lparr>src := src st + 1\<rparr>)
     else Inr \<lparr>src = src st + 2, dst = dst st + unat (raw ! src st) mod 128,
               decoded_group_buf =
                 write_at (dst st) (replicate (unat (raw ! src st) mod 128) (raw ! (src st + 1)))
                   (decoded_group_buf st)\<rparr>)"
  using assms by (simp add: pmt_decode_step_def Let_def high_bit_test low7)

lemma step_literal:
  assumes "src st < length raw" and "\<not> bit (raw ! src st) 7"
  shows "pmt_decode_step raw rs cap st =
    (if int (src st) + 1 > rs then Inl (InputOverrun, st\<lparr>src := src st + 1\<rparr>)
     else if int (dst st + unat (raw ! src st)) > cap
       then Inl (OutputOverrun, st\<lparr>src := src st + 1\<rparr>)
     else if length raw < src st + 1 + unat (raw ! src st)
             \<or> length (decoded_group_buf st) < dst st + unat (raw ! src st)
       then Inl (OutOfBounds, st\<lparr>src := src st + 1\<rparr>)
     else Inr \<lparr>src = src st + 1 + unat (raw ! src st), dst = dst st + unat (raw ! src st),
               decoded_group_buf =
                 write_at (dst st) (take (unat (raw ! src st)) (drop (src st + 1) raw))
                   (decoded_group_buf st)\<rparr>)"
  using assms by (simp add: pmt_decode_step_def Let_def high_bit_test)

lemma step_src_advances:
  "pmt_decode_step raw rs cap st = Inr st' \<Longrightarrow> src st < src st'"
  by (auto simp: pmt_decode_step_def Let_def split: if_splits)

lemma step_never_input_overrun:
  "int (src st) < rs \<Longrightarrow> pmt_decode_step raw rs cap st \<noteq> Inl (InputOverrun, st')"
  by (auto simp: pmt_decode_step_def Let_def split: if_splits)

lemma step_output_overrun:
  assumes "int (src st) < rs" and "src st < length raw"
    and "cap < int (dst st + opcode_count (raw ! src st))"
  shows "pmt_decode_step raw rs cap st = Inl (OutputOverrun, st\<lparr>src := src st + 1\<rparr>)"
proof (cases "raw ! src st AND 0x80 \<noteq> 0")
  case True
  with assms show ?thesis by (simp add: pmt_decode_step_def opcode_count_def Let_def)
next
  case False
  with assms show ?thesis by (simp add: pmt_decode_step_def opcode_count_def Let_def)
qed


subsection \<open>The loop\<close>

lemma loop_unfold_Inr:
  "int (src st) < rs \<Longrightarrow> pmt_decode_step raw rs cap st = Inr st' \<Longrightarrow>
   pmt_decode_loop raw rs cap st = pmt_decode_loop raw rs cap st'"
  by (simp add: pmt_decode_loop.simps [of raw rs cap st])

lemma loop_unfold_Inl:
  "int (src st) < rs \<Longrightarrow> pmt_decode_step raw rs cap st = Inl e \<Longrightarrow>
   pmt_decode_loop raw rs cap st = Inl e"
  by (simp add: pmt_decode_loop.simps [of raw rs cap st])

lemma loop_exit:
  "\<not> int (src st) < rs \<Longrightarrow> pmt_decode_loop raw rs cap st = Inr st"
  by (simp add: pmt_decode_loop.simps [of raw rs cap st])

lemma loop_never_input_overrun:
  "pmt_decode_loop raw rs cap st \<noteq> Inl (InputOverrun, st')"
proof (induction raw rs cap st rule: pmt_decode_loop.induct)
  case (1 raw rs cap st)
  show ?case
  proof (cases "int (src st) < rs")
    case False
    then show ?thesis by (simp add: pmt_decode_loop.simps [of raw rs cap st])
  next
    case True
    show ?thesis
    proof (cases "pmt_decode_step raw rs cap st")
      case (Inl e)
      with True step_never_input_overrun [of st rs raw cap st'] show ?thesis
        by (simp add: pmt_decode_loop.simps [of raw rs cap st])
    next
      case (Inr st2)
      with True "1.IH" [of st2] show ?thesis
        by (simp add: pmt_decode_loop.simps [of raw rs cap st])
    qed
  qed
qed

lemma fuel_enough:
  "nat (rs - int (src st)) \<le> k \<Longrightarrow>
   pmt_decode_fuel k raw rs cap st = Some (pmt_decode_loop raw rs cap st)"
proof (induction k arbitrary: st)
  case 0
  then show ?case by (simp add: pmt_decode_loop.simps [of raw rs cap st])
next
  case (Suc k)
  show ?case
  proof (cases "int (src st) < rs")
    case False
    then show ?thesis by (simp add: pmt_decode_loop.simps [of raw rs cap st])
  next
    case True
    show ?thesis
    proof (cases "pmt_decode_step raw rs cap st")
      case (Inl e)
      with True show ?thesis by (simp add: pmt_decode_loop.simps [of raw rs cap st])
    next
      case (Inr st2)
      from step_src_advances [OF Inr] Suc.prems have "nat (rs - int (src st2)) \<le> k" by linarith
      from Suc.IH [OF this] True Inr show ?thesis
        by (simp add: pmt_decode_loop.simps [of raw rs cap st])
    qed
  qed
qed


text \<open>
  Over a stretch \<open>xs\<close> of the input whose opcodes and operands all lie inside the
  declared size, the loop writes exactly what the specification's decoder yields for
  \<open>xs\<close> and arrives at the byte after it.
\<close>

lemma loop_wf:
  "rle_spec xs = Some ys \<Longrightarrow> raw = pre @ xs @ post \<Longrightarrow> src st = length pre \<Longrightarrow>
   int (length pre + length xs) \<le> rs \<Longrightarrow> int (dst st + length ys) \<le> cap \<Longrightarrow>
   dst st + length ys \<le> length (decoded_group_buf st) \<Longrightarrow>
   pmt_decode_loop raw rs cap st =
   pmt_decode_loop raw rs cap
     \<lparr>src = length pre + length xs, dst = dst st + length ys,
      decoded_group_buf = write_at (dst st) ys (decoded_group_buf st)\<rparr>"
proof (induction xs arbitrary: pre st ys rule: rle_spec.induct)
  case 1
  have ys: "ys = []" using "1.prems" by simp
  have e: "\<lparr>src = length pre + length ([] :: u8 list), dst = dst st + length ([] :: u8 list),
            decoded_group_buf = write_at (dst st) [] (decoded_group_buf st)\<rparr> = st"
    using "1.prems" by (cases st) (simp add: write_at_Nil)
  show ?case by (simp only: ys e)
next
  case (2 c rest)
  have lt: "int (src st) < rs" using "2.prems" by simp
  have inb: "src st < length raw" using "2.prems" by simp
  have c: "raw ! src st = c" using "2.prems" by (simp add: nth_append)
  show ?case
  proof (cases "bit c 7")
    case True
    with "2.prems"(1) obtain v rest' ys' where
      rest: "rest = v # rest'" and ys': "rle_spec rest' = Some ys'"
      and ys: "ys = replicate (unat c mod 128) v @ ys'"
      by (auto split: list.splits)
    let ?n = "unat c mod 128"
    let ?st2 = "\<lparr>src = src st + 2, dst = dst st + ?n,
                 decoded_group_buf = write_at (dst st) (replicate ?n v) (decoded_group_buf st)\<rparr>"
    have v: "raw ! (src st + 1) = v" using "2.prems" rest by (simp add: nth_append)
    have step: "pmt_decode_step raw rs cap st = Inr ?st2"
      using "2.prems" rest ys True inb c v by (simp add: step_run)
    have raw2: "raw = (pre @ [c, v]) @ rest' @ post" using "2.prems" rest by simp
    have len: "length (decoded_group_buf ?st2) = length (decoded_group_buf st)"
      using "2.prems" ys by (simp add: length_write_at)
    have "pmt_decode_loop raw rs cap ?st2 =
          pmt_decode_loop raw rs cap
            \<lparr>src = length (pre @ [c, v]) + length rest', dst = dst ?st2 + length ys',
             decoded_group_buf = write_at (dst ?st2) ys' (decoded_group_buf ?st2)\<rparr>"
      using "2.prems" rest ys len
      by (intro "2.IH"(1) [OF True rest ys' raw2]) simp_all
    moreover have "write_at (dst ?st2) ys' (decoded_group_buf ?st2)
                   = write_at (dst st) ys (decoded_group_buf st)"
      using "2.prems" ys write_at_write_at [of "dst st" "replicate ?n v" "decoded_group_buf st" ys']
      by simp
    ultimately show ?thesis
      using loop_unfold_Inr [OF lt step] rest ys by (simp add: add.assoc)
  next
    case False
    with "2.prems"(1) obtain ys' where
      fits: "\<not> length rest < unat c"
      and ys': "rle_spec (drop (unat c) rest) = Some ys'"
      and ys: "ys = take (unat c) rest @ ys'"
      by (auto split: if_splits)
    let ?n = "unat c"
    let ?st2 = "\<lparr>src = src st + 1 + ?n, dst = dst st + ?n,
                 decoded_group_buf = write_at (dst st) (take ?n rest) (decoded_group_buf st)\<rparr>"
    have pl: "take ?n (drop (src st + 1) raw) = take ?n rest"
      using "2.prems" fits by simp
    have step: "pmt_decode_step raw rs cap st = Inr ?st2"
      using "2.prems" ys False inb c fits pl by (simp add: step_literal)
    have raw2: "raw = (pre @ c # take ?n rest) @ drop ?n rest @ post" using "2.prems" by simp
    have len: "length (decoded_group_buf ?st2) = length (decoded_group_buf st)"
      using "2.prems" ys fits by (simp add: length_write_at)
    have "pmt_decode_loop raw rs cap ?st2 =
          pmt_decode_loop raw rs cap
            \<lparr>src = length (pre @ c # take ?n rest) + length (drop ?n rest),
             dst = dst ?st2 + length ys',
             decoded_group_buf = write_at (dst ?st2) ys' (decoded_group_buf ?st2)\<rparr>"
      using "2.prems" ys len fits
      by (intro "2.IH"(2) [OF False fits ys' raw2]) simp_all
    moreover have "write_at (dst ?st2) ys' (decoded_group_buf ?st2)
                   = write_at (dst st) ys (decoded_group_buf st)"
      using "2.prems" ys fits
        write_at_write_at [of "dst st" "take ?n rest" "decoded_group_buf st" ys']
      by simp
    ultimately show ?thesis
      using loop_unfold_Inr [OF lt step] ys fits by (simp add: add.assoc)
  qed
qed

lemma loop_wf_from_start:
  assumes "rle_spec xs = Some ys" and "int (length xs) \<le> rs"
    and "int (length ys) \<le> cap" and "length ys \<le> length out"
  shows "pmt_decode_loop (xs @ post) rs cap \<lparr>src = 0, dst = 0, decoded_group_buf = out\<rparr> =
         pmt_decode_loop (xs @ post) rs cap
           \<lparr>src = length xs, dst = length ys, decoded_group_buf = write_at 0 ys out\<rparr>"
  using loop_wf [of xs ys "xs @ post" "[]" post
      "\<lparr>src = 0, dst = 0, decoded_group_buf = out\<rparr>" rs cap] assms
  by simp

lemma loop_wf_complete:
  assumes "rle_spec xs = Some ys" and "int (length ys) \<le> cap" and "length ys \<le> length out"
  shows "pmt_decode_loop (xs @ post) (int (length xs)) cap
           \<lparr>src = 0, dst = 0, decoded_group_buf = out\<rparr>
         = Inr \<lparr>src = length xs, dst = length ys, decoded_group_buf = write_at 0 ys out\<rparr>"
  using loop_wf_from_start [OF assms(1) _ assms(2,3), of "int (length xs)" post]
  by (simp add: loop_exit)


subsection \<open>A full-size group\<close>

text \<open>
  489 runs of 127 bytes decode to 62103 bytes; a run of 54 and three literal bytes
  complete the 62160 bytes of a group.
\<close>

lemma rle_spec_runs:
  "rle_spec (concat (replicate k [0xFF, v]) @ zs)
   = map_option ((@) (replicate (127 * k) v)) (rle_spec zs)"
proof (induction k)
  case 0
  show ?case by (simp add: option.map_ident)
next
  case (Suc k)
  have "unat (0xFF :: u8) mod 128 = 127" by simp
  moreover have "bit (0xFF :: u8) 7" by simp
  moreover have "replicate (127 * Suc k) v @ x = replicate 127 v @ replicate (127 * k) v @ x" for x
    by (simp add: replicate_add [symmetric] del: replicate_add)
  ultimately show ?case
    using Suc by (simp add: option.map_comp comp_def del: replicate_add mult_Suc_right)
qed

lemma length_runs: "length (concat (replicate k [a, b])) = 2 * k"
  by (induction k) simp_all

lemma runs_only_spec:
  "rle_spec (concat (replicate 489 [0xFF, 0x11])) = Some (replicate 62103 0x11)"
  using rle_spec_runs [of 489 "0x11" "[]"] by simp

lemma full_group_spec:
  "rle_spec (concat (replicate 489 [0xFF, 0x11]) @ [0xB6, 0x22, 0x03, 0x41, 0x42, 0x43])
   = Some (replicate 62103 0x11 @ replicate 54 0x22 @ [0x41, 0x42, 0x43])"
proof -
  have "rle_spec [0xB6, 0x22, 0x03, 0x41, 0x42, 0x43 :: u8]
        = Some (replicate 54 0x22 @ [0x41, 0x42, 0x43])"
    by simp
  then show ?thesis by (simp only: rle_spec_runs) simp
qed


subsection \<open>Reads beyond the declared input\<close>

text \<open>
  The test \<^verbatim>\<open>(src - raw_group_buf) > raw_group_size\<close> follows a single increment of a
  cursor that was below \<open>raw_group_size\<close>, so it never holds: no call reports
  \<open>InputOverrun\<close>.
\<close>

lemma pmt_decode_group_never_input_overrun:
  "fst (pmt_decode_group raw_group_buf raw_group_size decoded_buf decoded_group_buf_size)
   \<noteq> Inl InputOverrun"
proof (cases "pmt_decode_loop raw_group_buf raw_group_size decoded_group_buf_size
                \<lparr>src = 0, dst = 0, decoded_group_buf = decoded_buf\<rparr>")
  case (Inl e)
  obtain err st' where e: "e = (err, st')" by (cases e)
  with Inl loop_never_input_overrun have "err \<noteq> InputOverrun" by metis
  with Inl e show ?thesis by (simp add: pmt_decode_group_def)
next
  case (Inr st)
  then show ?thesis by (simp add: pmt_decode_group_def Let_def)
qed


text \<open>
  Claim C1 (fails on the code): an opcode whose run value or literal bytes lie at or
  beyond the declared input size makes \<^verbatim>\<open>pmt_decode_group\<close> fail with \<open>InputOverrun\<close>,
  and no byte outside the declared input is read. The theorem evaluates the code on a
  62160-byte array of which 979 bytes are declared: 489 full runs and, as the last
  declared byte, a run opcode of length 57. Its run value is byte 979 of the array,
  outside the declared input; the call reads it (\<open>0xAA\<close>), writes it 57 times and
  returns success.
\<close>

theorem pmt_decode_group_reads_past_declared_input:
  "pmt_decode_group
     (concat (replicate 489 [0xFF, 0x11]) @ [0xB9] @ 0xAA # replicate 61180 0) 979
     (replicate 62160 0) 62160
   = (Inr 62160, replicate 62103 0x11 @ replicate 57 0xAA)"
proof -
  let ?xs = "concat (replicate 489 [0xFF, 0x11 :: u8])"
  let ?post = "[0xB9] @ 0xAA # replicate 61180 (0 :: u8)"
  let ?st = "\<lparr>src = 978, dst = 62103,
              decoded_group_buf = replicate 62103 0x11 @ replicate 57 (0 :: u8)\<rparr>"
  let ?st2 = "\<lparr>src = 980, dst = 62160,
               decoded_group_buf = replicate 62103 0x11 @ replicate 57 (0xAA :: u8)\<rparr>"
  have a: "pmt_decode_loop (?xs @ ?post) 979 62160
             \<lparr>src = 0, dst = 0, decoded_group_buf = replicate 62160 0\<rparr>
           = pmt_decode_loop (?xs @ ?post) 979 62160 ?st"
    using loop_wf_from_start [OF runs_only_spec, of 979 62160 "replicate 62160 0" ?post]
    by (simp add: length_runs write_at_def)
  have n: "(?xs @ ?post) ! 978 = 0xB9" "(?xs @ ?post) ! 979 = 0xAA"
    by (simp_all add: nth_append length_runs)
  have m: "unat (0xB9 :: u8) mod 128 = 57" "bit (0xB9 :: u8) 7"
    by simp_all
  have "pmt_decode_step (?xs @ ?post) 979 62160 ?st = Inr ?st2"
    using n m by (simp add: step_run length_runs write_at_def)
  then have "pmt_decode_loop (?xs @ ?post) 979 62160 ?st
             = pmt_decode_loop (?xs @ ?post) 979 62160 ?st2"
    by (intro loop_unfold_Inr) simp_all
  also have "\<dots> = Inr ?st2"
    by (intro loop_exit) simp
  finally show ?thesis
    using a by (simp add: pmt_decode_group_def)
qed


subsection \<open>Opcode semantics\<close>

text \<open>
  Claim C2: \<^verbatim>\<open>pmt_decode_group\<close> reads each control byte as the specification says (high
  bit set: the low 7 bits are a run length and the next byte the fill value; high bit
  clear: the byte counts the input bytes copied verbatim) and goes on opcode by opcode
  until the input is consumed. For every input \<open>xs\<close> whose operands lie inside it, with
  whatever bytes \<open>post\<close> the array holds after the declared input, and whose expansion
  \<open>ys\<close> fits the destination, the loop ends with the source cursor at the end of \<open>xs\<close>,
  having written exactly \<open>ys\<close> at the start of the destination.
\<close>

theorem pmt_decode_group_follows_opcodes:
  assumes "rle_spec xs = Some ys"
    and "int (length ys) \<le> decoded_group_buf_size"
    and "length ys \<le> length decoded_buf"
  shows "pmt_decode_loop (xs @ post) (int (length xs)) decoded_group_buf_size
           \<lparr>src = 0, dst = 0, decoded_group_buf = decoded_buf\<rparr>
         = Inr \<lparr>src = length xs, dst = length ys,
                decoded_group_buf = write_at 0 ys decoded_buf\<rparr>
       \<and> snd (pmt_decode_group (xs @ post) (int (length xs)) decoded_buf decoded_group_buf_size)
         = ys @ drop (length ys) decoded_buf"
proof -
  have l: "pmt_decode_loop (xs @ post) (int (length xs)) decoded_group_buf_size
             \<lparr>src = 0, dst = 0, decoded_group_buf = decoded_buf\<rparr>
           = Inr \<lparr>src = length xs, dst = length ys,
                  decoded_group_buf = write_at 0 ys decoded_buf\<rparr>"
    using loop_wf_from_start [OF assms(1) _ assms(2,3), of "int (length xs)" post]
    by (simp add: loop_exit)
  then show ?thesis
    by (simp add: pmt_decode_group_def Let_def write_at_def)
qed

theorem pmt_decode_group_follows_opcodes_witness:
  "rle_spec (concat (replicate 489 [0xFF, 0x11]) @ [0xB6, 0x22, 0x03, 0x41, 0x42, 0x43])
     = Some (replicate 62103 0x11 @ replicate 54 0x22 @ [0x41, 0x42, 0x43])
   \<and> pmt_decode_loop (concat (replicate 489 [0xFF, 0x11]) @ [0xB6, 0x22, 0x03, 0x41, 0x42, 0x43])
         984 62160 \<lparr>src = 0, dst = 0, decoded_group_buf = replicate 62160 0\<rparr>
       = Inr \<lparr>src = 984, dst = 62160,
              decoded_group_buf = replicate 62103 0x11 @ replicate 54 0x22 @ [0x41, 0x42, 0x43]\<rparr>
   \<and> snd (pmt_decode_group
              (concat (replicate 489 [0xFF, 0x11]) @ [0xB6, 0x22, 0x03, 0x41, 0x42, 0x43])
              984 (replicate 62160 0) 62160)
       = replicate 62103 0x11 @ replicate 54 0x22 @ [0x41, 0x42, 0x43]"
  using pmt_decode_group_follows_opcodes [OF full_group_spec, of 62160 "replicate 62160 0" "[]"]
    full_group_spec
  by (simp add: write_at_def length_runs)


subsection \<open>Exact output size\<close>

text \<open>
  Claim C3: when the loop consumes the input without an error, the call fails with
  \<open>SizeMismatch\<close> exactly when the number of bytes written differs from the expected
  size, and a successful call returns exactly the expected size (62160 at the only
  call site).
\<close>

theorem pmt_decode_group_size_check:
  assumes "pmt_decode_loop raw_group_buf raw_group_size decoded_group_buf_size
             \<lparr>src = 0, dst = 0, decoded_group_buf = decoded_buf\<rparr> = Inr st"
  shows "(fst (pmt_decode_group raw_group_buf raw_group_size decoded_buf decoded_group_buf_size)
            = Inl SizeMismatch \<longleftrightarrow> int (dst st) \<noteq> decoded_group_buf_size)
       \<and> (fst (pmt_decode_group raw_group_buf raw_group_size decoded_buf decoded_group_buf_size)
            = Inr decoded_group_buf_size \<longleftrightarrow> int (dst st) = decoded_group_buf_size)
       \<and> (\<forall>k. fst (pmt_decode_group raw_group_buf raw_group_size decoded_buf
                      decoded_group_buf_size) = Inr k \<longrightarrow> k = decoded_group_buf_size)"
  using assms by (simp add: pmt_decode_group_def Let_def)

theorem pmt_decode_group_size_check_witness:
  "pmt_decode_loop (concat (replicate 489 [0xFF, 0x11]) @ [0xB6, 0x22, 0x03, 0x41, 0x42, 0x43])
       984 62160 \<lparr>src = 0, dst = 0, decoded_group_buf = replicate 62160 0\<rparr>
     = Inr \<lparr>src = 984, dst = 62160,
            decoded_group_buf = replicate 62103 0x11 @ replicate 54 0x22 @ [0x41, 0x42, 0x43]\<rparr>
   \<and> fst (pmt_decode_group
              (concat (replicate 489 [0xFF, 0x11]) @ [0xB6, 0x22, 0x03, 0x41, 0x42, 0x43])
              984 (replicate 62160 0) 62160) = Inr 62160
   \<and> pmt_decode_loop [0x82, 0x41] 2 62160
         \<lparr>src = 0, dst = 0, decoded_group_buf = replicate 62160 0\<rparr>
     = Inr \<lparr>src = 2, dst = 2, decoded_group_buf = 0x41 # 0x41 # replicate 62158 0\<rparr>
   \<and> fst (pmt_decode_group [0x82, 0x41] 2 (replicate 62160 0) 62160) = Inl SizeMismatch"
proof -
  have a: "pmt_decode_loop
             (concat (replicate 489 [0xFF, 0x11]) @ [0xB6, 0x22, 0x03, 0x41, 0x42, 0x43])
             984 62160 \<lparr>src = 0, dst = 0, decoded_group_buf = replicate 62160 0\<rparr>
           = Inr \<lparr>src = 984, dst = 62160,
                  decoded_group_buf = replicate 62103 0x11 @ replicate 54 0x22 @ [0x41, 0x42, 0x43]\<rparr>"
    using loop_wf_complete [OF full_group_spec, of 62160 "replicate 62160 0" "[]"]
    by (simp add: write_at_def length_runs)
  have s: "rle_spec [0x82, 0x41 :: u8] = Some [0x41, 0x41]"
    by (simp add: replicate_two)
  have b: "pmt_decode_loop [0x82, 0x41] 2 62160
             \<lparr>src = 0, dst = 0, decoded_group_buf = replicate 62160 0\<rparr>
           = Inr \<lparr>src = 2, dst = 2, decoded_group_buf = 0x41 # 0x41 # replicate 62158 0\<rparr>"
    using loop_wf_complete [OF s, of 62160 "replicate 62160 0" "[]"]
    by (simp add: write_at_def)
  show ?thesis
    using pmt_decode_group_size_check [OF a] pmt_decode_group_size_check [OF b] a b
    by simp
qed


subsection \<open>Output overrun\<close>

text \<open>
  Claim C6: an opcode that would write beyond the destination capacity makes the call
  fail with \<open>OutputOverrun\<close> before anything of it is written. At the opcode \<open>c\<close> that
  follows a well-formed stretch \<open>xs\<close> of the input, the loop stops with the destination
  cursor and the destination array untouched, whatever the array holds; the call
  returns \<open>OutputOverrun\<close> and the destination holds the complete output \<open>ys\<close> of the
  opcodes before \<open>c\<close>, followed by its old contents.
\<close>

theorem pmt_decode_group_output_overrun:
  assumes "rle_spec xs = Some ys"
    and "int (length ys) \<le> decoded_group_buf_size"
    and "length ys \<le> length decoded_buf"
    and "int (length xs) < raw_group_size"
    and "decoded_group_buf_size < int (length ys + opcode_count c)"
  shows "pmt_decode_loop (xs @ c # post) raw_group_size decoded_group_buf_size
           \<lparr>src = length xs, dst = length ys, decoded_group_buf = buf\<rparr>
         = Inl (OutputOverrun,
                \<lparr>src = length xs + 1, dst = length ys, decoded_group_buf = buf\<rparr>)
       \<and> pmt_decode_group (xs @ c # post) raw_group_size decoded_buf decoded_group_buf_size
         = (Inl OutputOverrun, ys @ drop (length ys) decoded_buf)"
proof -
  let ?raw = "xs @ c # post"
  have step: "pmt_decode_step ?raw raw_group_size decoded_group_buf_size
                \<lparr>src = length xs, dst = length ys, decoded_group_buf = b\<rparr>
              = Inl (OutputOverrun,
                     \<lparr>src = length xs + 1, dst = length ys, decoded_group_buf = b\<rparr>)" for b
    using assms
      step_output_overrun [of "\<lparr>src = length xs, dst = length ys, decoded_group_buf = b\<rparr>"
        raw_group_size ?raw decoded_group_buf_size]
    by simp
  have fail: "pmt_decode_loop ?raw raw_group_size decoded_group_buf_size
                \<lparr>src = length xs, dst = length ys, decoded_group_buf = b\<rparr>
              = Inl (OutputOverrun,
                     \<lparr>src = length xs + 1, dst = length ys, decoded_group_buf = b\<rparr>)" for b
    using assms(4) step [of b] by (intro loop_unfold_Inl) simp_all
  have "pmt_decode_loop ?raw raw_group_size decoded_group_buf_size
          \<lparr>src = 0, dst = 0, decoded_group_buf = decoded_buf\<rparr>
        = pmt_decode_loop ?raw raw_group_size decoded_group_buf_size
            \<lparr>src = length xs, dst = length ys, decoded_group_buf = write_at 0 ys decoded_buf\<rparr>"
    using loop_wf_from_start [OF assms(1) _ assms(2,3), of raw_group_size "c # post"] assms(4)
    by simp
  then have "pmt_decode_group ?raw raw_group_size decoded_buf decoded_group_buf_size
             = (Inl OutputOverrun, ys @ drop (length ys) decoded_buf)"
    using fail [of "write_at 0 ys decoded_buf"]
    by (simp add: pmt_decode_group_def write_at_def)
  with fail [of buf] show ?thesis by simp
qed

theorem pmt_decode_group_output_overrun_witness:
  "rle_spec (concat (replicate 489 [0xFF, 0x11])) = Some (replicate 62103 0x11)
   \<and> opcode_count 0xFF = 127
   \<and> pmt_decode_loop (concat (replicate 489 [0xFF, 0x11]) @ [0xFF, 0x22]) 980 62160
         \<lparr>src = 978, dst = 62103, decoded_group_buf = replicate 62103 0x11 @ replicate 57 0\<rparr>
       = Inl (OutputOverrun,
              \<lparr>src = 979, dst = 62103,
               decoded_group_buf = replicate 62103 0x11 @ replicate 57 0\<rparr>)
   \<and> pmt_decode_group (concat (replicate 489 [0xFF, 0x11]) @ [0xFF, 0x22]) 980
         (replicate 62160 0) 62160
       = (Inl OutputOverrun, replicate 62103 0x11 @ replicate 57 0)"
proof -
  have c: "opcode_count 0xFF = 127"
    by (simp add: opcode_count_def)
  show ?thesis
    using pmt_decode_group_output_overrun [OF runs_only_spec,
        where decoded_group_buf_size = 62160 and decoded_buf = "replicate 62160 0"
          and raw_group_size = 980 and c = "0xFF" and post = "[0x22]"
          and buf = "replicate 62103 0x11 @ replicate 57 0"] runs_only_spec c
    by (simp add: length_runs)
qed


subsection \<open>Termination\<close>

text \<open>
  Claim C10: the decode loop terminates on every input. An iteration that does not
  fail moves the source cursor on by exactly 2 for a run opcode and by 1 plus the count
  for a literal opcode, and \<open>raw_group_size\<close> iterations always suffice: the loop
  bounded by that many iterations yields the result of the unbounded loop.
\<close>

theorem pmt_decode_group_terminates:
  "(\<forall>st st'. pmt_decode_step raw_group_buf raw_group_size decoded_group_buf_size st = Inr st' \<longrightarrow>
       src st' = src st + (if (raw_group_buf ! src st) AND 0x80 \<noteq> 0 then 2
                           else 1 + unat (raw_group_buf ! src st)))
   \<and> pmt_decode_fuel (nat raw_group_size) raw_group_buf raw_group_size decoded_group_buf_size
         \<lparr>src = 0, dst = 0, decoded_group_buf = decoded_buf\<rparr>
       = Some (pmt_decode_loop raw_group_buf raw_group_size decoded_group_buf_size
                \<lparr>src = 0, dst = 0, decoded_group_buf = decoded_buf\<rparr>)"
proof (intro conjI allI impI)
  fix st st'
  assume "pmt_decode_step raw_group_buf raw_group_size decoded_group_buf_size st = Inr st'"
  then show "src st' = src st + (if (raw_group_buf ! src st) AND 0x80 \<noteq> 0 then 2
                                 else 1 + unat (raw_group_buf ! src st))"
    by (auto simp: pmt_decode_step_def Let_def split: if_splits)
next
  show "pmt_decode_fuel (nat raw_group_size) raw_group_buf raw_group_size decoded_group_buf_size
         \<lparr>src = 0, dst = 0, decoded_group_buf = decoded_buf\<rparr>
       = Some (pmt_decode_loop raw_group_buf raw_group_size decoded_group_buf_size
                \<lparr>src = 0, dst = 0, decoded_group_buf = decoded_buf\<rparr>)"
    by (rule fuel_enough) simp
qed

theorem pmt_decode_group_terminates_witness:
  "pmt_decode_step [0x82, 0x41, 0x01, 0x42] 4 3 \<lparr>src = 0, dst = 0, decoded_group_buf = [0, 0, 0]\<rparr>
     = Inr \<lparr>src = 2, dst = 2, decoded_group_buf = [0x41, 0x41, 0]\<rparr>
   \<and> pmt_decode_step [0x82, 0x41, 0x01, 0x42] 4 3
         \<lparr>src = 2, dst = 2, decoded_group_buf = [0x41, 0x41, 0]\<rparr>
     = Inr \<lparr>src = 4, dst = 3, decoded_group_buf = [0x41, 0x41, 0x42]\<rparr>
   \<and> pmt_decode_fuel 4 [0x82, 0x41, 0x01, 0x42] 4 3
         \<lparr>src = 0, dst = 0, decoded_group_buf = [0, 0, 0]\<rparr>
     = Some (Inr \<lparr>src = 4, dst = 3, decoded_group_buf = [0x41, 0x41, 0x42]\<rparr>)
   \<and> pmt_decode_loop [0x82, 0x41, 0x01, 0x42] 4 3
         \<lparr>src = 0, dst = 0, decoded_group_buf = [0, 0, 0]\<rparr>
     = Inr \<lparr>src = 4, dst = 3, decoded_group_buf = [0x41, 0x41, 0x42]\<rparr>"
proof -
  have s1: "pmt_decode_step [0x82, 0x41, 0x01, 0x42] 4 3
              \<lparr>src = 0, dst = 0, decoded_group_buf = [0, 0, 0]\<rparr>
            = Inr \<lparr>src = 2, dst = 2, decoded_group_buf = [0x41, 0x41, 0]\<rparr>"
    by (simp add: pmt_decode_step_def write_at_def replicate_two)
  have s2: "pmt_decode_step [0x82, 0x41, 0x01, 0x42] 4 3
              \<lparr>src = 2, dst = 2, decoded_group_buf = [0x41, 0x41, 0]\<rparr>
            = Inr \<lparr>src = 4, dst = 3, decoded_group_buf = [0x41, 0x41, 0x42]\<rparr>"
    by (simp add: pmt_decode_step_def write_at_def)
  have f: "pmt_decode_fuel 4 [0x82, 0x41, 0x01, 0x42] 4 3
             \<lparr>src = 0, dst = 0, decoded_group_buf = [0, 0, 0]\<rparr>
           = Some (Inr \<lparr>src = 4, dst = 3, decoded_group_buf = [0x41, 0x41, 0x42]\<rparr>)"
    using s1 s2 by (simp add: numeral_eq_Suc)
  show ?thesis
    using pmt_decode_group_terminates [of "[0x82, 0x41, 0x01, 0x42]" 4 3 "[0, 0, 0]"] s1 s2 f
    by simp
qed

section \<open>Properties of the plane reassembler\<close>

subsection \<open>One pixel\<close>

lemma upt_4: "[0..<4] = [0, 1, 2, 3 :: nat]"
  by (simp add: upt_rec numeral_eq_Suc)

lemma upt_3: "[0..<3] = [0, 1, 2 :: nat]"
  by (simp add: upt_rec numeral_eq_Suc)

lemma pmt_plane_pixel_bit: "pmt_plane_pixel b i = of_bool (bit b (unat i))"
  unfolding pmt_plane_pixel_def Let_def
  by (rule bit_word_eqI) (auto simp: bit_simps dest: bit_imp_le_length)

lemma unat_of_nat_u8: "n < 256 \<Longrightarrow> unat (of_nat n :: u8) = n"
  by (simp add: unat_of_nat)

lemma pixel_idx: "unat (of_nat (7 - (j - j div 8 * 8)) :: u8) = 7 - j mod 8"
proof -
  have e: "7 - (j - j div 8 * 8) = 7 - j mod 8" by (simp add: minus_div_mult_eq_mod)
  have "7 - j mod 8 < 256" by simp
  then have "unat (of_nat (7 - j mod 8) :: u8) = 7 - j mod 8" by (rule unat_of_nat_u8)
  then show ?thesis by (simp only: e)
qed

lemma plane_fold:
  "fold (\<lambda>pmt_plane result. result + push_bit pmt_plane (g pmt_plane)) [0..<PMT_PLANES] (0 :: u8)
   = (\<Sum>p\<leftarrow>[0..<4]. push_bit p (g p))"
  by (simp add: PMT_PLANES_def upt_4)

lemma bmp_pixel_eq:
  "bmp_pixel pmt_row j =
   (\<Sum>p\<leftarrow>[0..<4]. push_bit p (of_bool (bit (pmt_row ! (p * 105 + j div 8)) (7 - j mod 8))))"
  by (simp only: bmp_pixel_def Let_def plane_fold pmt_plane_pixel_bit pixel_idx
      PMT_DECODED_ROW_PLANE_BYTES_def)

lemma nibble_bound:
  "unat (\<Sum>p\<leftarrow>[0..<4]. push_bit p (of_bool (f p)) :: u8) < 16"
  by (cases "f 0"; cases "f 1"; cases "f 2"; cases "f 3") (simp_all add: upt_4)

lemma bmp_pixel_lt_16: "unat (bmp_pixel pmt_row j) < 16"
  unfolding bmp_pixel_eq by (rule nibble_bound)

lemma nibble_take_bit:
  assumes "unat (b :: u8) < 16"
  shows "take_bit 4 b = b"
proof -
  have "take_bit 4 (unat b) = unat b"
    using assms by (intro take_bit_nat_eq_self) simp
  then have "unat (take_bit 4 b) = unat b"
    by (simp only: unsigned_take_bit_eq)
  then show ?thesis by (simp only: word_unat_eq_iff)
qed

lemma nibble_add_or:
  assumes "unat (b :: u8) < 16"
  shows "push_bit 4 a + b = push_bit 4 a OR b"
proof (rule disjunctive_add)
  fix n
  have e: "take_bit 4 b = b" by (rule nibble_take_bit [OF assms])
  have "bit (take_bit 4 b) n \<Longrightarrow> n < 4"
    using bit_take_bit_iff [of 4 b n] by blast
  then have "bit b n \<Longrightarrow> n < 4" by (simp only: e)
  moreover have "bit (push_bit 4 a) n \<Longrightarrow> 4 \<le> n"
    using bit_push_bit_iff [of 4 a n] by blast
  ultimately show "\<not> bit (push_bit 4 a) n \<or> \<not> bit b n" by fastforce
qed


text \<open>
  Claim C9: for every decoded row and every pixel index below 840, \<^verbatim>\<open>bmp_pixel\<close> returns
  a value below 16: it is the sum, over the 4 planes, of one bit of the plane shifted
  by the plane number, so each nibble of the output is an index into the 16-entry
  color table.
\<close>

theorem bmp_pixel_is_color_index:
  assumes "length pmt_row = PMT_DECODED_ROW_BYTES"
    and "pmt_row_pixel_idx < PMT_PIXELS_PER_ROW"
  shows "unat (bmp_pixel pmt_row pmt_row_pixel_idx) < 16
       \<and> bmp_pixel pmt_row pmt_row_pixel_idx
         = (\<Sum>p\<leftarrow>[0..<4]. push_bit p
              (of_bool (bit (pmt_row ! (p * 105 + pmt_row_pixel_idx div 8))
                          (7 - pmt_row_pixel_idx mod 8))))"
  using bmp_pixel_lt_16 [of pmt_row pmt_row_pixel_idx] bmp_pixel_eq [of pmt_row pmt_row_pixel_idx]
  by simp

theorem bmp_pixel_is_color_index_witness:
  "length (replicate 420 (0xFF :: u8)) = PMT_DECODED_ROW_BYTES
   \<and> (839 :: nat) < PMT_PIXELS_PER_ROW
   \<and> bmp_pixel (replicate 420 0xFF) 839 = 15
   \<and> unat (bmp_pixel (replicate 420 0xFF) 839) < 16"
proof -
  have a: "length (replicate 420 (0xFF :: u8)) = PMT_DECODED_ROW_BYTES"
    by (simp add: PMT_DECODED_ROW_BYTES_def PMT_DECODED_ROW_PLANE_BYTES_def PMT_PLANES_def)
  have b: "(839 :: nat) < PMT_PIXELS_PER_ROW"
    by (simp add: PMT_PIXELS_PER_ROW_def PMT_DECODED_ROW_PLANE_BYTES_def)
  show ?thesis
    using bmp_pixel_is_color_index [OF a b] a b by (simp add: upt_4)
qed


subsection \<open>Rows and groups\<close>

lemma write_at_snoc:
  assumes "off + length ys < length buf"
  shows "(write_at off ys buf)[off + length ys := x] = write_at off (ys @ [x]) buf"
proof -
  have d: "drop (off + length ys) buf = buf ! (off + length ys) # drop (Suc (off + length ys)) buf"
    using assms by (simp add: Cons_nth_drop_Suc)
  have "(write_at off ys buf)[off + length ys := x]
        = take off buf @ ys @ (drop (off + length ys) buf)[0 := x]"
    using assms by (simp add: write_at_def list_update_append)
  also have "\<dots> = take off buf @ ys @ x # drop (Suc (off + length ys)) buf"
    by (simp only: d list_update_code)
  also have "\<dots> = write_at off (ys @ [x]) buf"
    by (simp add: write_at_def)
  finally show ?thesis .
qed

lemma nth_write_at:
  "off + length ys \<le> length buf \<Longrightarrow> i < length ys \<Longrightarrow> write_at off ys buf ! (off + i) = ys ! i"
  by (simp add: write_at_def nth_append)

lemma nth_write_at_outside:
  "off + length ys \<le> length buf \<Longrightarrow> n < off \<or> off + length ys \<le> n \<Longrightarrow>
   write_at off ys buf ! n = buf ! n"
  by (auto simp: write_at_def nth_append)

lemma convert_pixel_even:
  "even j \<Longrightarrow>
   convert_pixel pmt_row j (p, b, buf) = (p, b + push_bit 4 (bmp_pixel pmt_row j), buf)"
  by (simp add: convert_pixel_def Let_def even_iff_mod_2_eq_zero)

lemma convert_pixel_odd:
  "odd j \<Longrightarrow>
   convert_pixel pmt_row j (p, b, buf) = (p + 1, 0, buf[p := b + bmp_pixel pmt_row j])"
  by (simp add: convert_pixel_def Let_def even_iff_mod_2_eq_zero)

lemma fold_convert_pixel:
  "bmp_ptr + n div 2 \<le> length bmp_buf \<Longrightarrow>
   fold (convert_pixel pmt_row) [0..<n] (bmp_ptr, 0, bmp_buf) =
   (bmp_ptr + n div 2,
    (if even n then 0 else push_bit 4 (bmp_pixel pmt_row (n - 1))),
    write_at bmp_ptr
      (map (\<lambda>k. push_bit 4 (bmp_pixel pmt_row (2 * k)) + bmp_pixel pmt_row (2 * k + 1))
         [0..<n div 2]) bmp_buf)"
proof (induction n)
  case 0
  show ?case by (simp add: write_at_Nil)
next
  case (Suc n)
  let ?f = "\<lambda>k. push_bit 4 (bmp_pixel pmt_row (2 * k)) + bmp_pixel pmt_row (2 * k + 1)"
  have le: "bmp_ptr + n div 2 \<le> length bmp_buf" using Suc.prems by simp
  note IH = Suc.IH [OF le]
  have unroll: "fold (convert_pixel pmt_row) [0..<Suc n] (bmp_ptr, 0, bmp_buf)
                = convert_pixel pmt_row n (fold (convert_pixel pmt_row) [0..<n] (bmp_ptr, 0, bmp_buf))"
    by simp
  show ?case
  proof (cases "even n")
    case True
    then obtain m where n: "n = 2 * m" by (auto elim: evenE)
    have "fold (convert_pixel pmt_row) [0..<Suc n] (bmp_ptr, 0, bmp_buf)
          = convert_pixel pmt_row n (bmp_ptr + m, 0, write_at bmp_ptr (map ?f [0..<m]) bmp_buf)"
      using IH n by (simp only: unroll) simp
    also have "\<dots> = (bmp_ptr + m, push_bit 4 (bmp_pixel pmt_row n),
                     write_at bmp_ptr (map ?f [0..<m]) bmp_buf)"
      using True by (simp add: convert_pixel_even)
    finally show ?thesis using n by simp
  next
    case False
    then obtain m where n: "n = 2 * m + 1" by (auto elim: oddE)
    have lt: "bmp_ptr + length (map ?f [0..<m]) < length bmp_buf"
      using Suc.prems n by simp
    have "fold (convert_pixel pmt_row) [0..<Suc n] (bmp_ptr, 0, bmp_buf)
          = convert_pixel pmt_row n
              (bmp_ptr + m, push_bit 4 (bmp_pixel pmt_row (2 * m)),
               write_at bmp_ptr (map ?f [0..<m]) bmp_buf)"
      using IH n by (simp only: unroll) simp
    also have "\<dots> = (bmp_ptr + m + 1, 0,
                     (write_at bmp_ptr (map ?f [0..<m]) bmp_buf)
                       [bmp_ptr + length (map ?f [0..<m]) := ?f m])"
      using False n by (simp add: convert_pixel_odd)
    also have "\<dots> = (bmp_ptr + m + 1, 0, write_at bmp_ptr (map ?f [0..<m] @ [?f m]) bmp_buf)"
      by (simp only: write_at_snoc [OF lt])
    finally show ?thesis using n by simp
  qed
qed

lemma row_slice_nth:
  "(row + 1) * 420 \<le> length g \<Longrightarrow> i < 420 \<Longrightarrow>
   take 420 (drop (row * 420) g) ! i = g ! (row * 420 + i)"
  by simp

lemma bmp_pixel_spec:
  assumes "(row + 1) * 420 \<le> length g" and "j < 840"
  shows "bmp_pixel (take PMT_DECODED_ROW_BYTES (drop (row * PMT_DECODED_ROW_BYTES) g)) j
         = pixel_value_spec g row j"
proof -
  have c: "PMT_DECODED_ROW_BYTES = 420"
    by (simp add: PMT_DECODED_ROW_BYTES_def PMT_DECODED_ROW_PLANE_BYTES_def PMT_PLANES_def)
  have "j div 8 < 105" using assms(2) by simp
  then have "p < 4 \<Longrightarrow> p * 105 + j div 8 < 420" for p by simp
  then have n: "p < 4 \<Longrightarrow> take 420 (drop (row * 420) g) ! (p * 105 + j div 8)
                        = g ! (row * 420 + p * 105 + j div 8)" for p
    using row_slice_nth [OF assms(1)] by (simp add: add.assoc)
  show ?thesis
    unfolding bmp_pixel_eq pixel_value_spec_def c
    by (intro arg_cong [where f = sum_list] map_cong refl) (simp add: n)
qed

lemma packed_byte_code:
  assumes "(row + 1) * 420 \<le> length g" and "k < 420"
  shows "push_bit 4 (bmp_pixel (take PMT_DECODED_ROW_BYTES (drop (row * PMT_DECODED_ROW_BYTES) g)) (2 * k))
         + bmp_pixel (take PMT_DECODED_ROW_BYTES (drop (row * PMT_DECODED_ROW_BYTES) g)) (2 * k + 1)
         = packed_byte_spec g row k"
proof -
  have "push_bit 4 (pixel_value_spec g row (2 * k)) + pixel_value_spec g row (2 * k + 1)
        = packed_byte_spec g row k"
    unfolding packed_byte_spec_def
    using bmp_pixel_lt_16 [of "take PMT_DECODED_ROW_BYTES (drop (row * PMT_DECODED_ROW_BYTES) g)" "2 * k + 1"]
      bmp_pixel_spec [OF assms(1), of "2 * k + 1"] assms(2)
    by (intro nibble_add_or) simp
  then show ?thesis
    using bmp_pixel_spec [OF assms(1), of "2 * k + 1"] bmp_pixel_spec [OF assms(1), of "2 * k"] assms(2)
    by simp
qed

lemma convert_row_eq:
  assumes "(row + 1) * 420 \<le> length g" and "bmp_group_start + (row + 1) * 420 \<le> length bmp_buf"
  shows "convert_row g bmp_group_start row (p, bmp_buf) =
         (bmp_group_start + (row + 1) * 420,
          write_at (bmp_group_start + row * 420) (map (packed_byte_spec g row) [0..<420]) bmp_buf)"
proof -
  let ?r = "take PMT_DECODED_ROW_BYTES (drop (row * PMT_DECODED_ROW_BYTES) g)"
  let ?f = "\<lambda>k. push_bit 4 (bmp_pixel ?r (2 * k)) + bmp_pixel ?r (2 * k + 1)"
  have m: "map ?f [0..<420] = map (packed_byte_spec g row) [0..<420]"
    using packed_byte_code [OF assms(1)] by (intro map_cong) simp_all
  have "fold (convert_pixel ?r) [0..<840] (bmp_group_start + row * 420, 0, bmp_buf)
        = (bmp_group_start + row * 420 + 840 div 2, (if even (840 :: nat) then 0 else push_bit 4 (bmp_pixel ?r (840 - 1))),
           write_at (bmp_group_start + row * 420) (map ?f [0..<840 div 2]) bmp_buf)"
    using assms(2) by (intro fold_convert_pixel) simp
  also have "\<dots> = (bmp_group_start + (row + 1) * 420, 0,
           write_at (bmp_group_start + row * 420) (map ?f [0..<420]) bmp_buf)"
    by simp
  finally have "fold (convert_pixel ?r) [0..<840] (bmp_group_start + row * 420, 0, bmp_buf)
        = (bmp_group_start + (row + 1) * 420, 0,
           write_at (bmp_group_start + row * 420) (map (packed_byte_spec g row) [0..<420]) bmp_buf)"
    by (simp only: m)
  then show ?thesis
    by (simp add: convert_row_def Let_def PMT_PIXELS_PER_ROW_def BMP_ROW_BYTES_def
        PMT_DECODED_ROW_BYTES_def PMT_DECODED_ROW_PLANE_BYTES_def PMT_PLANES_def)
qed

lemma length_rows:
  "length (concat (map (\<lambda>row. map (f row) [0..<m]) [0..<n])) = n * m"
  by (induction n) simp_all

lemma rows_nth:
  "r < n \<Longrightarrow> k < m \<Longrightarrow>
   concat (map (\<lambda>row. map (f row) [0..<m]) [0..<n]) ! (r * m + k) = f r k"
proof (induction n)
  case 0
  then show ?case by simp
next
  case (Suc n)
  show ?case
  proof (cases "r < n")
    case True
    then have "r * m + k < n * m"
      using Suc.prems(2) by (metis add.commute mult_Suc less_le_trans add_less_cancel_left
          mult_le_mono1 Suc_leI)
    with True Suc show ?thesis by (simp add: nth_append length_rows)
  next
    case False
    with Suc.prems have "r = n" by simp
    with Suc.prems show ?thesis by (simp add: nth_append length_rows)
  qed
qed

lemma fold_convert_row:
  "n * 420 \<le> length g \<Longrightarrow> bmp_group_start + n * 420 \<le> length bmp_buf \<Longrightarrow>
   fold (convert_row g bmp_group_start) [0..<n] (p0, bmp_buf) =
   ((if n = 0 then p0 else bmp_group_start + n * 420),
    write_at bmp_group_start
      (concat (map (\<lambda>row. map (packed_byte_spec g row) [0..<420]) [0..<n])) bmp_buf)"
proof (induction n)
  case 0
  show ?case by (simp add: write_at_Nil)
next
  case (Suc n)
  let ?C = "concat (map (\<lambda>row. map (packed_byte_spec g row) [0..<420]) [0..<n])"
  let ?p = "if n = 0 then p0 else bmp_group_start + n * 420"
  have lc: "length ?C = n * 420" by (rule length_rows)
  have g: "n * 420 \<le> length g" and b: "bmp_group_start + n * 420 \<le> length bmp_buf"
    using Suc.prems by simp_all
  have len: "length (write_at bmp_group_start ?C bmp_buf) = length bmp_buf"
    using b lc by (simp add: length_write_at)
  have "fold (convert_row g bmp_group_start) [0..<Suc n] (p0, bmp_buf)
        = convert_row g bmp_group_start n (?p, write_at bmp_group_start ?C bmp_buf)"
    using Suc.IH [OF g b] by simp
  also have "\<dots> = (bmp_group_start + (n + 1) * 420,
                   write_at (bmp_group_start + n * 420) (map (packed_byte_spec g n) [0..<420])
                     (write_at bmp_group_start ?C bmp_buf))"
    using Suc.prems len by (intro convert_row_eq) simp_all
  also have "write_at (bmp_group_start + n * 420) (map (packed_byte_spec g n) [0..<420])
               (write_at bmp_group_start ?C bmp_buf)
             = write_at bmp_group_start (?C @ map (packed_byte_spec g n) [0..<420]) bmp_buf"
    using write_at_write_at [of bmp_group_start ?C bmp_buf "map (packed_byte_spec g n) [0..<420]"]
      b lc by simp
  finally show ?case by simp
qed

lemma group_bytes: "PMT_DECODED_GROUP_BYTES = 62160" "BMP_GROUP_BYTES = 62160"
  by (simp_all add: PMT_DECODED_GROUP_BYTES_def BMP_GROUP_BYTES_def BMP_ROW_BYTES_def
      PMT_DECODED_ROW_BYTES_def PMT_DECODED_ROW_PLANE_BYTES_def PMT_PLANES_def
      PMT_ROWS_PER_GROUP_def)

lemma length_reassemble_spec: "length (reassemble_spec g) = 62160"
  by (simp add: reassemble_spec_def length_rows)

lemma convert_group_to_bmp_eq:
  assumes "PMT_DECODED_GROUP_BYTES \<le> length g"
    and "bmp_group_start + BMP_GROUP_BYTES \<le> length bmp_buf"
  shows "convert_group_to_bmp g bmp_buf bmp_group_start =
         (bmp_group_start + BMP_GROUP_BYTES,
          write_at bmp_group_start (reassemble_spec g) bmp_buf)"
  using assms fold_convert_row [of 148 g bmp_group_start bmp_buf 0]
  by (simp add: convert_group_to_bmp_def reassemble_spec_def group_bytes PMT_ROWS_PER_GROUP_def)


text \<open>
  Claim C4: \<^verbatim>\<open>convert_group_to_bmp\<close> writes, for each of the 148 rows, exactly 420 bytes;
  byte \<open>k\<close> of row \<open>row\<close> is \<open>(v (2 * k) << 4) | v (2 * k + 1)\<close>, where \<open>v j\<close> is the sum
  over the planes \<open>p\<close> of bit \<open>7 - j mod 8\<close> of byte \<open>j div 8\<close> of plane \<open>p\<close>, shifted left by
  \<open>p\<close>. The 148 * 420 bytes are written from \<open>bmp_group_start\<close> on, the returned pointer
  is the byte after them, and no other byte of the output array changes.
\<close>

theorem convert_group_to_bmp_packs_pixels:
  assumes "PMT_DECODED_GROUP_BYTES \<le> length pmt_group"
    and "bmp_group_start + BMP_GROUP_BYTES \<le> length bmp_buf"
    and "row < PMT_ROWS_PER_GROUP" and "k < BMP_ROW_BYTES"
  shows "snd (convert_group_to_bmp pmt_group bmp_buf bmp_group_start)
           ! (bmp_group_start + row * BMP_ROW_BYTES + k)
         = push_bit 4 (pixel_value_spec pmt_group row (2 * k))
             OR pixel_value_spec pmt_group row (2 * k + 1)
       \<and> fst (convert_group_to_bmp pmt_group bmp_buf bmp_group_start)
         = bmp_group_start + PMT_ROWS_PER_GROUP * BMP_ROW_BYTES
       \<and> length (snd (convert_group_to_bmp pmt_group bmp_buf bmp_group_start)) = length bmp_buf
       \<and> (\<forall>n < length bmp_buf.
             n < bmp_group_start \<or> bmp_group_start + PMT_ROWS_PER_GROUP * BMP_ROW_BYTES \<le> n \<longrightarrow>
             snd (convert_group_to_bmp pmt_group bmp_buf bmp_group_start) ! n = bmp_buf ! n)"
proof -
  have c: "BMP_ROW_BYTES = 420" "PMT_ROWS_PER_GROUP = 148"
    by (simp_all add: BMP_ROW_BYTES_def PMT_DECODED_ROW_BYTES_def PMT_DECODED_ROW_PLANE_BYTES_def
        PMT_PLANES_def PMT_ROWS_PER_GROUP_def)
  have e: "convert_group_to_bmp pmt_group bmp_buf bmp_group_start
           = (bmp_group_start + 62160, write_at bmp_group_start (reassemble_spec pmt_group) bmp_buf)"
    using convert_group_to_bmp_eq [OF assms(1,2)] by (simp add: group_bytes)
  have fits: "bmp_group_start + length (reassemble_spec pmt_group) \<le> length bmp_buf"
    using assms(2) by (simp add: group_bytes length_reassemble_spec)
  have i: "row * 420 + k < length (reassemble_spec pmt_group)"
    using assms(3,4) by (simp add: c length_reassemble_spec)
  have "write_at bmp_group_start (reassemble_spec pmt_group) bmp_buf
          ! (bmp_group_start + (row * 420 + k))
        = reassemble_spec pmt_group ! (row * 420 + k)"
    by (rule nth_write_at [OF fits i])
  also have "\<dots> = packed_byte_spec pmt_group row k"
    using assms(3,4) unfolding reassemble_spec_def by (intro rows_nth) (simp_all add: c)
  finally have byte: "snd (convert_group_to_bmp pmt_group bmp_buf bmp_group_start)
                        ! (bmp_group_start + row * BMP_ROW_BYTES + k)
                      = push_bit 4 (pixel_value_spec pmt_group row (2 * k))
                          OR pixel_value_spec pmt_group row (2 * k + 1)"
    by (simp add: e c packed_byte_spec_def add.assoc)
  have ptr: "fst (convert_group_to_bmp pmt_group bmp_buf bmp_group_start)
             = bmp_group_start + PMT_ROWS_PER_GROUP * BMP_ROW_BYTES"
    by (simp add: e c)
  have len: "length (snd (convert_group_to_bmp pmt_group bmp_buf bmp_group_start)) = length bmp_buf"
    using fits by (simp add: e length_write_at)
  have rest: "snd (convert_group_to_bmp pmt_group bmp_buf bmp_group_start) ! n = bmp_buf ! n"
    if "n < bmp_group_start \<or> bmp_group_start + PMT_ROWS_PER_GROUP * BMP_ROW_BYTES \<le> n" for n
    using that nth_write_at_outside [OF fits, of n] by (simp add: e c length_reassemble_spec)
  from byte ptr len rest show ?thesis by blast
qed

theorem convert_group_to_bmp_packs_pixels_witness:
  "PMT_DECODED_GROUP_BYTES \<le> length (0x80 # replicate 62159 (0 :: u8))
   \<and> 62160 + BMP_GROUP_BYTES \<le> length (replicate 372960 (0xFF :: u8))
   \<and> (0 :: nat) < PMT_ROWS_PER_GROUP \<and> (0 :: nat) < BMP_ROW_BYTES
   \<and> snd (convert_group_to_bmp (0x80 # replicate 62159 0) (replicate 372960 0xFF) 62160) ! 62160
       = 0x10
   \<and> fst (convert_group_to_bmp (0x80 # replicate 62159 0) (replicate 372960 0xFF) 62160)
       = 124320
   \<and> length (snd (convert_group_to_bmp (0x80 # replicate 62159 0) (replicate 372960 0xFF) 62160))
       = 372960
   \<and> snd (convert_group_to_bmp (0x80 # replicate 62159 0) (replicate 372960 0xFF) 62160) ! 62159
       = 0xFF"
proof -
  have c: "BMP_ROW_BYTES = 420" "PMT_ROWS_PER_GROUP = 148"
    by (simp_all add: BMP_ROW_BYTES_def PMT_DECODED_ROW_BYTES_def PMT_DECODED_ROW_PLANE_BYTES_def
        PMT_PLANES_def PMT_ROWS_PER_GROUP_def)
  have a: "PMT_DECODED_GROUP_BYTES \<le> length (0x80 # replicate 62159 (0 :: u8))"
    by (simp add: group_bytes)
  have b: "62160 + BMP_GROUP_BYTES \<le> length (replicate 372960 (0xFF :: u8))"
    by (simp add: group_bytes)
  have r: "(0 :: nat) < PMT_ROWS_PER_GROUP" and k: "(0 :: nat) < BMP_ROW_BYTES"
    by (simp_all add: c)
  have v0: "pixel_value_spec (0x80 # replicate 62159 0) 0 0 = 1"
    by (simp add: pixel_value_spec_def upt_4)
  have v1: "pixel_value_spec (0x80 # replicate 62159 0) 0 1 = 0"
    by (simp add: pixel_value_spec_def upt_4)
  show ?thesis
    using convert_group_to_bmp_packs_pixels [OF a b r k] a b r k v0 v1
    by (simp add: c)
qed


section \<open>Properties of the color table converter\<close>

lemma color_entry_eq:
  "pmt_to_bmp_color_entry t i out =
   out[i * 4 := push_bit 2 (t ! (i * 3 + 2)),
       i * 4 + 1 := push_bit 2 (t ! (i * 3 + 1)),
       i * 4 + 2 := push_bit 2 (t ! (i * 3)),
       i * 4 + 3 := 0]"
  by (simp add: pmt_to_bmp_color_entry_def upt_3)

lemma fold_color_entries:
  "n * 4 \<le> length out \<Longrightarrow>
   length (fold (pmt_to_bmp_color_entry t) [0..<n] out) = length out
   \<and> (\<forall>i<n. \<forall>c<3. fold (pmt_to_bmp_color_entry t) [0..<n] out ! (i * 4 + c)
                       = push_bit 2 (t ! (i * 3 + (2 - c))))
   \<and> (\<forall>i<n. fold (pmt_to_bmp_color_entry t) [0..<n] out ! (i * 4 + 3) = 0)
   \<and> (\<forall>m. n * 4 \<le> m \<longrightarrow> fold (pmt_to_bmp_color_entry t) [0..<n] out ! m = out ! m)"
proof (induction n)
  case 0
  show ?case by simp
next
  case (Suc n)
  let ?r = "fold (pmt_to_bmp_color_entry t) [0..<n] out"
  have le: "n * 4 \<le> length out" using Suc.prems by simp
  note IH = Suc.IH [OF le]
  have len: "length ?r = length out" using IH by simp
  have u: "fold (pmt_to_bmp_color_entry t) [0..<Suc n] out
           = ?r[n * 4 := push_bit 2 (t ! (n * 3 + 2)),
                n * 4 + 1 := push_bit 2 (t ! (n * 3 + 1)),
                n * 4 + 2 := push_bit 2 (t ! (n * 3)),
                n * 4 + 3 := 0]"
    by (simp add: color_entry_eq)
  have in_range: "n * 4 + 3 < length ?r" using Suc.prems len by simp
  have old: "fold (pmt_to_bmp_color_entry t) [0..<Suc n] out ! m = ?r ! m"
    if "m < n * 4 \<or> n * 4 + 4 \<le> m" for m
    using that unfolding u by auto
  have c0: "fold (pmt_to_bmp_color_entry t) [0..<Suc n] out ! (n * 4 + 0) = push_bit 2 (t ! (n * 3 + 2))"
    and c1: "fold (pmt_to_bmp_color_entry t) [0..<Suc n] out ! (n * 4 + 1) = push_bit 2 (t ! (n * 3 + 1))"
    and c2: "fold (pmt_to_bmp_color_entry t) [0..<Suc n] out ! (n * 4 + 2) = push_bit 2 (t ! (n * 3))"
    and c3: "fold (pmt_to_bmp_color_entry t) [0..<Suc n] out ! (n * 4 + 3) = 0"
    using in_range unfolding u by simp_all
  have A: "length (fold (pmt_to_bmp_color_entry t) [0..<Suc n] out) = length out"
    unfolding u using len by simp
  have B: "fold (pmt_to_bmp_color_entry t) [0..<Suc n] out ! (i * 4 + c)
           = push_bit 2 (t ! (i * 3 + (2 - c)))" if "i < Suc n" "c < 3" for i c
  proof (cases "i < n")
    case True
    then have "i * 4 + c < n * 4" using that(2) by simp
    with old [of "i * 4 + c"] IH True that(2) show ?thesis by simp
  next
    case False
    with that have i: "i = n" by simp
    from that(2) consider "c = 0" | "c = 1" | "c = 2" by linarith
    then show ?thesis using c0 c1 c2 i by cases simp_all
  qed
  have C: "fold (pmt_to_bmp_color_entry t) [0..<Suc n] out ! (i * 4 + 3) = 0" if "i < Suc n" for i
  proof (cases "i < n")
    case True
    then have "i * 4 + 3 < n * 4" by simp
    with old [of "i * 4 + 3"] IH True show ?thesis by simp
  next
    case False
    with that have "i = n" by simp
    with c3 show ?thesis by simp
  qed
  have D: "fold (pmt_to_bmp_color_entry t) [0..<Suc n] out ! m = out ! m" if "Suc n * 4 \<le> m" for m
    using that old [of m] IH by simp
  from A B C D show ?case by blast
qed


text \<open>
  Claim C5: for every entry \<open>i\<close> below 16 and channel \<open>c\<close> below 3,
  \<open>output[i][c] = input[i][2 - c] << 2\<close>, and \<open>output[i][3] = 0\<close>. The witness is the
  entry \<open>(0x3F, 0x20, 0x10)\<close>, which becomes \<open>(0x40, 0x80, 0xFC, 0x00)\<close>.
\<close>

theorem pmt_to_bmp_color_table_entries:
  assumes "length pmt_color_table = 48" and "length bmp_color_table = 64"
    and "i < 16" and "c < 3"
  shows "pmt_to_bmp_color_table pmt_color_table bmp_color_table ! (i * 4 + c)
         = push_bit 2 (pmt_color_table ! (i * 3 + (2 - c)))
       \<and> pmt_to_bmp_color_table pmt_color_table bmp_color_table ! (i * 4 + 3) = 0
       \<and> length (pmt_to_bmp_color_table pmt_color_table bmp_color_table) = 64"
  using fold_color_entries [of 16 bmp_color_table pmt_color_table] assms
  by (simp add: pmt_to_bmp_color_table_def)

theorem pmt_to_bmp_color_table_entries_witness:
  "length (replicate 15 0 @ [0x3F, 0x20, 0x10] @ replicate 30 (0 :: u8)) = 48
   \<and> length (replicate 64 (0xEE :: u8)) = 64
   \<and> pmt_to_bmp_color_table (replicate 15 0 @ [0x3F, 0x20, 0x10] @ replicate 30 0)
        (replicate 64 0xEE) ! 20 = 0x40
   \<and> pmt_to_bmp_color_table (replicate 15 0 @ [0x3F, 0x20, 0x10] @ replicate 30 0)
        (replicate 64 0xEE) ! 21 = 0x80
   \<and> pmt_to_bmp_color_table (replicate 15 0 @ [0x3F, 0x20, 0x10] @ replicate 30 0)
        (replicate 64 0xEE) ! 22 = 0xFC
   \<and> pmt_to_bmp_color_table (replicate 15 0 @ [0x3F, 0x20, 0x10] @ replicate 30 0)
        (replicate 64 0xEE) ! 23 = 0x00"
proof -
  let ?t = "replicate 15 0 @ [0x3F, 0x20, 0x10] @ replicate 30 (0 :: u8)"
  have a: "length ?t = 48" by simp
  have b: "length (replicate 64 (0xEE :: u8)) = 64" by simp
  have n: "?t ! 15 = 0x3F" "?t ! 16 = 0x20" "?t ! 17 = 0x10"
    by (simp_all add: nth_append)
  show ?thesis
    using pmt_to_bmp_color_table_entries [OF a b, of 5 0]
      pmt_to_bmp_color_table_entries [OF a b, of 5 1]
      pmt_to_bmp_color_table_entries [OF a b, of 5 2] n
    by simp
qed

section \<open>Properties of the group reader\<close>

lemma read_group_short_prefix:
  "length fh < 2 \<Longrightarrow> pmt_read_group fh buf buf_size = (Inl TruncatedInput, [], buf)"
  by (simp add: pmt_read_group_def fread_def Let_def)

lemma read_group_too_big:
  "2 \<le> length fh \<Longrightarrow> buf_size < int (unat (fh ! 0) + 256 * unat (fh ! 1)) \<Longrightarrow>
   pmt_read_group fh buf buf_size = (Inl BufferTooSmall, drop 2 fh, buf)"
  by (simp add: pmt_read_group_def fread_def Let_def)

lemma read_group_short_payload:
  "2 \<le> length fh \<Longrightarrow> int (unat (fh ! 0) + 256 * unat (fh ! 1)) \<le> buf_size \<Longrightarrow>
   length fh < 2 + (unat (fh ! 0) + 256 * unat (fh ! 1)) \<Longrightarrow>
   pmt_read_group fh buf buf_size = (Inl TruncatedInput, [], write_at 0 (drop 2 fh) buf)"
  by (simp add: pmt_read_group_def fread_def Let_def)

lemma read_group_ok:
  "2 \<le> length fh \<Longrightarrow> int (unat (fh ! 0) + 256 * unat (fh ! 1)) \<le> buf_size \<Longrightarrow>
   2 + (unat (fh ! 0) + 256 * unat (fh ! 1)) \<le> length fh \<Longrightarrow>
   pmt_read_group fh buf buf_size =
   (Inr (int (unat (fh ! 0) + 256 * unat (fh ! 1))),
    drop (2 + (unat (fh ! 0) + 256 * unat (fh ! 1))) fh,
    write_at 0 (take (unat (fh ! 0) + 256 * unat (fh ! 1)) (drop 2 fh)) buf)"
  by (simp add: pmt_read_group_def fread_def Let_def add.commute)



text \<open>
  Claim C7 as stated fails on the code: it lets \<^verbatim>\<open>pmt_read_group\<close> fail with
  \<open>TruncatedInput\<close> whenever fewer payload bytes than declared are available. The
  source compares the declared length with the capacity before it reads the payload,
  so a stream that holds only the prefix \<open>0xFF, 0xFF\<close> (declared length 65535, no
  payload byte) fails with \<open>BufferTooSmall\<close> for a capacity of 62160.
\<close>

theorem pmt_read_group_counterexample:
  "length (drop 2 [0xFF, 0xFF :: u8]) < unat (0xFF :: u8) + 256 * unat (0xFF :: u8)
   \<and> fst (pmt_read_group [0xFF, 0xFF] (replicate 62160 0) 62160) \<noteq> Inl TruncatedInput
   \<and> fst (pmt_read_group [0xFF, 0xFF] (replicate 62160 0) 62160) = Inl BufferTooSmall"
  by (simp add: read_group_too_big)


text \<open>
  Claim C7, amended: \<^verbatim>\<open>pmt_read_group\<close> fails with \<open>TruncatedInput\<close> if fewer than 2
  bytes are available for the little-endian length prefix; otherwise it fails with
  \<open>BufferTooSmall\<close> if the declared length exceeds the destination capacity; otherwise
  it fails with \<open>TruncatedInput\<close> if fewer than the declared length bytes are available
  for the payload; and otherwise it succeeds, returns exactly the declared length and
  has placed that many bytes, the payload, at the start of the destination, leaving
  the stream after the payload.
\<close>

theorem pmt_read_group_outcomes:
  "(length fh < 2 \<longrightarrow> fst (pmt_read_group fh buf buf_size) = Inl TruncatedInput)
   \<and> (2 \<le> length fh \<and> buf_size < int (unat (fh ! 0) + 256 * unat (fh ! 1)) \<longrightarrow>
        fst (pmt_read_group fh buf buf_size) = Inl BufferTooSmall)
   \<and> (2 \<le> length fh \<and> int (unat (fh ! 0) + 256 * unat (fh ! 1)) \<le> buf_size
        \<and> length fh < 2 + (unat (fh ! 0) + 256 * unat (fh ! 1)) \<longrightarrow>
        fst (pmt_read_group fh buf buf_size) = Inl TruncatedInput)
   \<and> (2 \<le> length fh \<and> int (unat (fh ! 0) + 256 * unat (fh ! 1)) \<le> buf_size
        \<and> 2 + (unat (fh ! 0) + 256 * unat (fh ! 1)) \<le> length fh \<longrightarrow>
        pmt_read_group fh buf buf_size =
          (Inr (int (unat (fh ! 0) + 256 * unat (fh ! 1))),
           drop (2 + (unat (fh ! 0) + 256 * unat (fh ! 1))) fh,
           write_at 0 (take (unat (fh ! 0) + 256 * unat (fh ! 1)) (drop 2 fh)) buf)
        \<and> length (take (unat (fh ! 0) + 256 * unat (fh ! 1)) (drop 2 fh))
            = unat (fh ! 0) + 256 * unat (fh ! 1))"
  using read_group_short_prefix [of fh buf buf_size] read_group_too_big [of fh buf_size buf]
    read_group_short_payload [of fh buf_size buf] read_group_ok [of fh buf_size buf]
  by (auto simp: min_def)

theorem pmt_read_group_outcomes_witness:
  "fst (pmt_read_group [0x05] (replicate 62160 0) 62160) = Inl TruncatedInput
   \<and> fst (pmt_read_group [0xD1, 0xF2, 0x41] (replicate 62160 0) 62160) = Inl BufferTooSmall
   \<and> fst (pmt_read_group [0x03, 0x00, 0x41] (replicate 62160 0) 62160) = Inl TruncatedInput
   \<and> pmt_read_group [0x03, 0x00, 0x41, 0x42, 0x43, 0x99] (replicate 62160 0) 62160
       = (Inr 3, [0x99], 0x41 # 0x42 # 0x43 # replicate 62157 0)"
  using pmt_read_group_outcomes [of "[0x05]" "replicate 62160 0" 62160]
    pmt_read_group_outcomes [of "[0xD1, 0xF2, 0x41]" "replicate 62160 0" 62160]
    pmt_read_group_outcomes [of "[0x03, 0x00, 0x41]" "replicate 62160 0" 62160]
    pmt_read_group_outcomes [of "[0x03, 0x00, 0x41, 0x42, 0x43, 0x99]" "replicate 62160 0" 62160]
  by (simp add: write_at_def)


section \<open>Properties of the pipeline\<close>

subsection \<open>The decoder keeps the size of its destination\<close>






subsection \<open>The group loop\<close>


















subsection \<open>The sample file\<close>










subsection \<open>All or nothing\<close>



end
